theory Spec2Isabelle
  imports Main
begin

section \<open>Board values\<close>

text \<open>
  A slot of the board holds \<^verbatim>\<open>null\<close>, \<^verbatim>\<open>'X'\<close> or \<^verbatim>\<open>'O'\<close>: the array of
  \<^verbatim>\<open>Array(9).fill(null)\<close> starts all \<^verbatim>\<open>null\<close>, and the only write in the program
  stores \<^verbatim>\<open>xIsNext ? 'X' : 'O'\<close>. \<open>None\<close> is \<^verbatim>\<open>null\<close>.
\<close>

datatype mark = MarkX | MarkO

type_synonym square = "mark option"

type_synonym squares = "square list"

text \<open>The JavaScript string of a mark, as string concatenation sees it.\<close>

fun mark_str :: "mark \<Rightarrow> string" where
  "mark_str MarkX = ''X''"
| "mark_str MarkO = ''O''"

text \<open>
  \<^verbatim>\<open>squares[i]\<close>. A read past the end of a JavaScript array yields \<^verbatim>\<open>undefined\<close>,
  which like \<^verbatim>\<open>null\<close> is falsy and is not \<^verbatim>\<open>===\<close> to \<^verbatim>\<open>'X'\<close> or \<^verbatim>\<open>'O'\<close>;
  the program only tests such a value for truthiness or compares it with a mark, so
  both are \<open>None\<close> here.
\<close>

definition get :: "squares \<Rightarrow> nat \<Rightarrow> square" where
  "get sq i = (if i < length sq then sq ! i else None)"

text \<open>Truthiness of a slot: \<^verbatim>\<open>null\<close> is falsy, the non-empty strings are truthy.\<close>

definition truthy :: "square \<Rightarrow> bool" where
  "truthy v = (case v of None \<Rightarrow> False | Some m \<Rightarrow> True)"

text \<open>
  \<^verbatim>\<open>arr[i] = v\<close>. A write inside the array replaces the slot; a write past the end
  extends the array, the skipped slots being holes (that read as \<^verbatim>\<open>undefined\<close>).
\<close>

definition set_at :: "squares \<Rightarrow> nat \<Rightarrow> square \<Rightarrow> squares" where
  "set_at sq i v =
     (if i < length sq then sq[i := v]
      else sq @ replicate (i - length sq) None @ [v])"

section \<open>calculateWinner\<close>

definition lines :: "(nat \<times> nat \<times> nat) list" where
  "lines =
    [(0, 1, 2),
     (3, 4, 5),
     (6, 7, 8),
     (0, 3, 6),
     (1, 4, 7),
     (2, 5, 8),
     (0, 4, 8),
     (2, 4, 6)]"

text \<open>The \<^verbatim>\<open>for\<close> loop of \<^verbatim>\<open>calculateWinner\<close>, from index \<open>i\<close> on.\<close>

function winner_from :: "squares \<Rightarrow> nat \<Rightarrow> square" where
  "winner_from sq i =
     (if i < length lines then
        (case lines ! i of (a, b, c) \<Rightarrow>
           if truthy (get sq a) \<and> get sq a = get sq b \<and> get sq a = get sq c
           then get sq a
           else winner_from sq (i + 1))
      else None)"
  by pat_completeness auto
termination
  by (relation "measure (\<lambda>(sq, i). length lines - i)") auto

definition calculateWinner :: "squares \<Rightarrow> square" where
  "calculateWinner sq = winner_from sq 0"

text \<open>The test of the loop body on one line: its three slots are filled and the same.\<close>

definition line_filled :: "squares \<Rightarrow> nat \<times> nat \<times> nat \<Rightarrow> bool" where
  "line_filled sq l =
     (case l of (a, b, c) \<Rightarrow>
        truthy (get sq a) \<and> get sq a = get sq b \<and> get sq a = get sq c)"

section \<open>The store of board arrays\<close>

text \<open>
  A board is a mutable JavaScript array, and a variable or a slot of \<^verbatim>\<open>history\<close> holds a
  reference to it. The store lists the arrays allocated so far; a reference is a position
  in it. Allocation appends, so a new reference differs from every earlier one.
\<close>

type_synonym ref = nat

type_synonym heap = "squares list"

definition alloc :: "heap \<Rightarrow> squares \<Rightarrow> ref \<times> heap" where
  "alloc h v = (length h, h @ [v])"

text \<open>\<^verbatim>\<open>arr[i] = v\<close> on the array that \<open>r\<close> refers to.\<close>

definition store :: "heap \<Rightarrow> ref \<Rightarrow> nat \<Rightarrow> square \<Rightarrow> heap" where
  "store h r i v = h[r := set_at (h ! r) i v]"

section \<open>Board\<close>

text \<open>
  \<^verbatim>\<open>handleClick(i)\<close> of a Board rendered with the props \<open>xIsNext\<close>, \<open>squares\<close> (a
  reference) and \<open>onPlay\<close>. The callback runs on the store and on the state \<open>s\<close> of
  whoever supplied it. \<^verbatim>\<open>squares.slice()\<close> allocates a copy of the whole array.
\<close>

definition handleClick ::
  "bool \<Rightarrow> ref \<Rightarrow> (ref \<Rightarrow> heap \<times> 's \<Rightarrow> heap \<times> 's) \<Rightarrow> nat \<Rightarrow> heap \<times> 's \<Rightarrow> heap \<times> 's" where
  "handleClick xIsNext squares onPlay i w =
     (case w of (h, s) \<Rightarrow>
        if truthy (calculateWinner (h ! squares)) \<or> truthy (get (h ! squares) i) then w
        else
          (case alloc h (h ! squares) of (nextSquares, h1) \<Rightarrow>
             let h2 = store h1 nextSquares i (Some (if xIsNext then MarkX else MarkO))
             in onPlay nextSquares (h2, s)))"

text \<open>
  String concatenation with a slot value: \<^verbatim>\<open>'Winner: ' + winner\<close>. (\<^verbatim>\<open>null\<close> would
  print as \<^verbatim>\<open>null\<close>.)
\<close>

fun to_string :: "square \<Rightarrow> string" where
  "to_string None = ''null''"
| "to_string (Some m) = mark_str m"

text \<open>The status line of a Board whose \<open>squares\<close> prop refers to the array \<open>sq\<close>.\<close>

definition status :: "bool \<Rightarrow> squares \<Rightarrow> string" where
  "status xIsNext sq =
     (let winner = calculateWinner sq
      in if truthy winner then ''Winner: '' @ to_string winner
         else ''Next player: '' @ (if xIsNext then ''X'' else ''O''))"

section \<open>Game\<close>

text \<open>
  \<^verbatim>\<open>a % b\<close> on integers, \<open>b \<noteq> 0\<close>: the remainder takes the sign of the dividend
  (and \<^verbatim>\<open>-0 === 0\<close>).
\<close>

definition js_rem :: "int \<Rightarrow> int \<Rightarrow> int" where
  "js_rem a b = sgn a * (\<bar>a\<bar> mod \<bar>b\<bar>)"

text \<open>
  \<^verbatim>\<open>xs.slice(start, stop)\<close> on integers: a negative bound counts from the end, and both
  bounds are clamped to the array.
\<close>

definition slice :: "'a list \<Rightarrow> int \<Rightarrow> int \<Rightarrow> 'a list" where
  "slice xs start stop =
     (let len = int (length xs);
          k = (if start < 0 then max (len + start) 0 else min start len);
          fin = (if stop < 0 then max (len + stop) 0 else min stop len)
      in take (nat (fin - k)) (drop (nat k) xs))"

text \<open>\<^verbatim>\<open>xs[k]\<close> for an integer \<open>k\<close>: \<open>None\<close> is \<^verbatim>\<open>undefined\<close>.\<close>

definition index :: "'a list \<Rightarrow> int \<Rightarrow> 'a option" where
  "index xs k = (if 0 \<le> k \<and> k < int (length xs) then Some (xs ! nat k) else None)"

text \<open>
  The two state variables of \<^verbatim>\<open>Game\<close>. The program never writes into a \<^verbatim>\<open>history\<close>
  array (\<^verbatim>\<open>slice\<close> and \<^verbatim>\<open>concat\<close> build new ones), so a history is a list of
  references to boards; \<^verbatim>\<open>currentMove\<close> is whatever number \<^verbatim>\<open>setCurrentMove\<close> was given.
\<close>

record game =
  history :: "ref list"
  currentMove :: int

type_synonym world = "heap \<times> game"

text \<open>
  The first render: \<^verbatim>\<open>useState([Array(9).fill(null)])\<close> allocates the empty board,
  \<^verbatim>\<open>useState(0)\<close> starts at move 0.
\<close>

definition initial :: world where
  "initial =
     (case alloc [] (replicate 9 None) of (r, h) \<Rightarrow>
        (h, \<lparr>history = [r], currentMove = 0\<rparr>))"

definition xIsNext :: "game \<Rightarrow> bool" where
  "xIsNext g = (js_rem (currentMove g) 2 = 0)"

definition currentSquares :: "game \<Rightarrow> ref option" where
  "currentSquares g = index (history g) (currentMove g)"

definition handlePlay :: "ref \<Rightarrow> world \<Rightarrow> world" where
  "handlePlay nextSquares w =
     (case w of (h, g) \<Rightarrow>
        let nextHistory = slice (history g) 0 (currentMove g + 1) @ [nextSquares]
        in (h, \<lparr>history = nextHistory, currentMove = int (length nextHistory) - 1\<rparr>))"

definition jumpTo :: "int \<Rightarrow> world \<Rightarrow> world" where
  "jumpTo nextMove w = (case w of (h, g) \<Rightarrow> (h, g\<lparr>currentMove := nextMove\<rparr>))"

text \<open>
  A click on square \<open>i\<close> of the rendered Game, whose Board has the props
  \<^verbatim>\<open>xIsNext\<close>, \<^verbatim>\<open>currentSquares\<close> and \<^verbatim>\<open>handlePlay\<close>. When \<^verbatim>\<open>currentSquares\<close> is
  \<^verbatim>\<open>undefined\<close> the Board's render throws a TypeError in \<^verbatim>\<open>calculateWinner\<close> (it reads
  a slot of \<^verbatim>\<open>undefined\<close>) and there is no square to click: \<open>None\<close>.
\<close>

definition clickSquare :: "nat \<Rightarrow> world \<Rightarrow> world option" where
  "clickSquare i w =
     (case currentSquares (snd w) of
        None \<Rightarrow> None
      | Some squares \<Rightarrow> Some (handleClick (xIsNext (snd w)) squares handlePlay i w))"

text \<open>
  The buttons of the page: the Board renders the squares 0 to 8, and the move list has
  one button \<^verbatim>\<open>jumpTo(move)\<close> for every position \<open>move\<close> of \<^verbatim>\<open>history\<close>. \<open>fire\<close> is
  \<open>None\<close> for a button the page does not have; a Game whose render throws has none.
\<close>

datatype event = SquareClick nat | MoveClick nat

fun fire :: "event \<Rightarrow> world \<Rightarrow> world option" where
  "fire (SquareClick i) w = (if i < 9 then clickSquare i w else None)"
| "fire (MoveClick move) w =
     (if currentSquares (snd w) \<noteq> None \<and> move < length (history (snd w))
      then Some (jumpTo (int move) w) else None)"

fun run :: "event list \<Rightarrow> world \<Rightarrow> world option" where
  "run [] w = Some w"
| "run (e # es) w = (case fire e w of None \<Rightarrow> None | Some w' \<Rightarrow> run es w')"

section \<open>Well-formed sessions\<close>

text \<open>
  One move separates two boards: exactly one slot differs, and it went from empty to a
  mark.
\<close>

definition one_move :: "squares \<Rightarrow> squares \<Rightarrow> bool" where
  "one_move old new =
     (\<exists>i < 9. old ! i = None \<and> new ! i \<noteq> None \<and> (\<forall>j < 9. j \<noteq> i \<longrightarrow> new ! j = old ! j))"

text \<open>
  The invariant of the session: the current move is a position of the history, every
  entry of the history refers to an allocated board of nine slots, the first board is
  empty, and each board is one move after the one before it.
\<close>

definition session_ok :: "world \<Rightarrow> bool" where
  "session_ok w =
     (case w of (h, g) \<Rightarrow>
        0 \<le> currentMove g \<and> currentMove g < int (length (history g)) \<and>
        (\<forall>r \<in> set (history g). r < length h \<and> length (h ! r) = 9) \<and>
        h ! (history g ! 0) = replicate 9 None \<and>
        (\<forall>k. Suc k < length (history g) \<longrightarrow>
             one_move (h ! (history g ! k)) (h ! (history g ! Suc k))))"

section \<open>The win detector scans the eight lines in order\<close>

declare winner_from.simps [simp del]

lemma winner_from_step:
  "i < length lines \<Longrightarrow>
   winner_from sq i =
     (if line_filled sq (lines ! i) then get sq (fst (lines ! i)) else winner_from sq (i + 1))"
proof -
  assume il: "i < length lines"
  obtain a b c where l: "lines ! i = (a, b, c)" by (cases "lines ! i")
  show ?thesis
    by (subst winner_from.simps) (use il l in \<open>auto simp: line_filled_def\<close>)
qed

lemma winner_from_end: "\<not> i < length lines \<Longrightarrow> winner_from sq i = None"
  by (subst winner_from.simps) simp

lemma winner_from_first:
  "i \<le> j \<Longrightarrow> j < length lines \<Longrightarrow> line_filled sq (lines ! j) \<Longrightarrow>
   (\<forall>k. i \<le> k \<and> k < j \<longrightarrow> \<not> line_filled sq (lines ! k)) \<Longrightarrow>
   winner_from sq i = get sq (fst (lines ! j))"
proof (induction sq i rule: winner_from.induct)
  case (1 sq i)
  show ?case
  proof (cases "i = j")
    case True
    with "1.prems" show ?thesis by (simp add: winner_from_step)
  next
    case False
    with "1.prems" have lt: "i < j" and nf: "\<not> line_filled sq (lines ! i)" by auto
    obtain a b c where l: "lines ! i = (a, b, c)" by (cases "lines ! i")
    from lt "1.prems" have il: "i < length lines" by simp
    from nf l have nh: "\<not> (truthy (get sq a) \<and> get sq a = get sq b \<and> get sq a = get sq c)"
      by (simp add: line_filled_def)
    have "winner_from sq (i + 1) = get sq (fst (lines ! j))"
      using "1.IH"[OF il l[symmetric] refl nh] lt "1.prems" by auto
    with il nf show ?thesis by (simp add: winner_from_step)
  qed
qed

lemma winner_from_none:
  "(\<forall>k. i \<le> k \<and> k < length lines \<longrightarrow> \<not> line_filled sq (lines ! k)) \<Longrightarrow>
   winner_from sq i = None"
proof (induction sq i rule: winner_from.induct)
  case (1 sq i)
  show ?case
  proof (cases "i < length lines")
    case False
    then show ?thesis by (rule winner_from_end)
  next
    case True
    obtain a b c where l: "lines ! i = (a, b, c)" by (cases "lines ! i")
    from True "1.prems" have nf: "\<not> line_filled sq (lines ! i)" by simp
    from nf l have nh: "\<not> (truthy (get sq a) \<and> get sq a = get sq b \<and> get sq a = get sq c)"
      by (simp add: line_filled_def)
    have "winner_from sq (i + 1) = None"
      using "1.IH"[OF True l[symmetric] refl nh] "1.prems" by auto
    with True nf show ?thesis by (simp add: winner_from_step)
  qed
qed

lemma lines_in_board: "(a, b, c) \<in> set lines \<Longrightarrow> a < 9 \<and> b < 9 \<and> c < 9"
  by (auto simp: lines_def)

lemma line_filled_iff:
  assumes "length sq = 9" and "(a, b, c) \<in> set lines"
  shows "line_filled sq (a, b, c) \<longleftrightarrow>
         (\<exists>m. sq ! a = Some m \<and> sq ! b = Some m \<and> sq ! c = Some m)"
  using assms lines_in_board[OF assms(2)]
  by (auto simp: line_filled_def get_def truthy_def split: option.splits)

lemma calculateWinner_scan:
  "(calculateWinner sq = None \<and> (\<forall>l \<in> set lines. \<not> line_filled sq l)) \<or>
   (\<exists>j < length lines. line_filled sq (lines ! j) \<and>
      (\<forall>k < j. \<not> line_filled sq (lines ! k)) \<and>
      calculateWinner sq = get sq (fst (lines ! j)))"
proof (cases "\<exists>j < length lines. line_filled sq (lines ! j)")
  case False
  then have none: "\<forall>k. 0 \<le> k \<and> k < length lines \<longrightarrow> \<not> line_filled sq (lines ! k)"
    by simp
  have "calculateWinner sq = None"
    unfolding calculateWinner_def by (rule winner_from_none[OF none])
  moreover from False have "\<forall>l \<in> set lines. \<not> line_filled sq l"
    by (metis in_set_conv_nth)
  ultimately show ?thesis by simp
next
  case True
  define Q where "Q j \<longleftrightarrow> j < length lines \<and> line_filled sq (lines ! j)" for j
  from True have ex: "\<exists>j. Q j" by (auto simp: Q_def)
  define j where "j = (LEAST j. Q j)"
  from ex have qj: "Q j" unfolding j_def by (auto intro: LeastI)
  have least: "\<not> Q k" if "k < j" for k
    using that unfolding j_def by (rule not_less_Least)
  from qj have jl: "j < length lines" and jf: "line_filled sq (lines ! j)"
    by (simp_all add: Q_def)
  have before: "\<forall>k. 0 \<le> k \<and> k < j \<longrightarrow> \<not> line_filled sq (lines ! k)"
    using least jl by (auto simp: Q_def)
  have "calculateWinner sq = get sq (fst (lines ! j))"
    unfolding calculateWinner_def by (rule winner_from_first[OF _ jl jf before]) simp
  with jl jf before show ?thesis by auto
qed

text \<open>
  Claim C1. On a board of nine slots, \<open>calculateWinner\<close> returns a mark exactly when one
  of the eight triples (three rows, three columns, two diagonals) holds the same mark in
  all three slots, and the mark it returns fills such a triple; when no triple is
  complete it returns \<open>None\<close>, also on a full board (a draw).
\<close>

theorem calculateWinner_triples:
  assumes len: "length sq = 9"
    and T: "T = {(0, 1, 2), (3, 4, 5), (6, 7, 8), (0, 3, 6), (1, 4, 7), (2, 5, 8),
                 (0, 4, 8), (2, 4, 6)}"
  shows "case calculateWinner sq of
           None \<Rightarrow>
             \<not> (\<exists>(a, b, c) \<in> T. \<exists>m. sq ! a = Some m \<and> sq ! b = Some m \<and> sq ! c = Some m)
         | Some w \<Rightarrow>
             (\<exists>(a, b, c) \<in> T. sq ! a = Some w \<and> sq ! b = Some w \<and> sq ! c = Some w)"
proof -
  have TL: "T = set lines" by (simp add: T lines_def)
  from calculateWinner_scan[of sq] show ?thesis
  proof (elim disjE conjE exE)
    assume none: "calculateWinner sq = None" and nf: "\<forall>l \<in> set lines. \<not> line_filled sq l"
    have "\<not> (\<exists>m. sq ! a = Some m \<and> sq ! b = Some m \<and> sq ! c = Some m)"
      if "(a, b, c) \<in> T" for a b c
      using that nf line_filled_iff[OF len, of a b c] by (auto simp: TL)
    with none show ?thesis by auto
  next
    fix j
    assume jl: "j < length lines" and jf: "line_filled sq (lines ! j)"
      and res: "calculateWinner sq = get sq (fst (lines ! j))"
    obtain a b c where l: "lines ! j = (a, b, c)" by (cases "lines ! j")
    from jl l have mem: "(a, b, c) \<in> set lines" by (metis nth_mem)
    from jf l line_filled_iff[OF len mem]
    obtain m where m: "sq ! a = Some m" "sq ! b = Some m" "sq ! c = Some m" by auto
    from lines_in_board[OF mem] len m have "get sq a = Some m" by (simp add: get_def)
    with res l have "calculateWinner sq = Some m" by simp
    moreover from mem m have "\<exists>(a, b, c) \<in> T. sq ! a = Some m \<and> sq ! b = Some m \<and> sq ! c = Some m"
      unfolding TL by blast
    ultimately show ?thesis by simp
  qed
qed

theorem calculateWinner_triples_witness:
  "length [Some MarkX, Some MarkO, Some MarkX,
           Some MarkX, Some MarkO, Some MarkO,
           Some MarkO, Some MarkX, Some MarkX] = 9 \<and>
   calculateWinner [Some MarkX, Some MarkO, Some MarkX,
                    Some MarkX, Some MarkO, Some MarkO,
                    Some MarkO, Some MarkX, Some MarkX] = None"
  using calculateWinner_triples
    [of "[Some MarkX, Some MarkO, Some MarkX,
          Some MarkX, Some MarkO, Some MarkO,
          Some MarkO, Some MarkX, Some MarkX]"
        "{(0, 1, 2), (3, 4, 5), (6, 7, 8), (0, 3, 6), (1, 4, 7), (2, 5, 8),
          (0, 4, 8), (2, 4, 6)}"]
  by (auto split: option.splits)

text \<open>
  Claim C9. When several triples are complete, \<open>calculateWinner\<close> returns the mark of
  the first complete one in the order rows, columns, diagonals: if the triple at position
  \<open>j\<close> of that order is filled with \<open>m\<close> and no earlier triple is complete, the result is
  \<open>m\<close>, whatever the later triples hold.
\<close>

theorem calculateWinner_earliest:
  assumes len: "length sq = 9"
    and order: "order = [(0, 1, 2), (3, 4, 5), (6, 7, 8), (0, 3, 6), (1, 4, 7), (2, 5, 8),
                         (0, 4, 8), (2, 4, 6)]"
    and j: "j < length order" "order ! j = (a, b, c)"
    and won: "sq ! a = Some m" "sq ! b = Some m" "sq ! c = Some m"
    and earliest: "\<forall>k < j. case order ! k of (a', b', c') \<Rightarrow>
                     \<not> (\<exists>m'. sq ! a' = Some m' \<and> sq ! b' = Some m' \<and> sq ! c' = Some m')"
  shows "calculateWinner sq = Some m"
proof -
  have ol: "order = lines" by (simp add: order lines_def)
  from j have mem: "(a, b, c) \<in> set lines" unfolding ol by (metis nth_mem)
  have jf: "line_filled sq (lines ! j)"
    using j(2) won line_filled_iff[OF len mem] by (simp add: ol)
  have before: "\<not> line_filled sq (lines ! k)" if "k < j" for k
  proof -
    obtain a' b' c' where l: "lines ! k = (a', b', c')" by (cases "lines ! k")
    from that j(1) have "k < length lines" by (simp add: ol)
    with l have mem': "(a', b', c') \<in> set lines" by (metis nth_mem)
    from earliest that l
    have "\<not> (\<exists>m'. sq ! a' = Some m' \<and> sq ! b' = Some m' \<and> sq ! c' = Some m')"
      by (auto simp: ol)
    with line_filled_iff[OF len mem'] l show ?thesis by simp
  qed
  from calculateWinner_scan[of sq] show ?thesis
  proof (elim disjE conjE exE)
    assume "\<forall>l \<in> set lines. \<not> line_filled sq l"
    with jf j(1) show ?thesis by (simp add: ol)
  next
    fix i
    assume il: "i < length lines" and "line_filled sq (lines ! i)"
      and first: "\<forall>k < i. \<not> line_filled sq (lines ! k)"
      and res: "calculateWinner sq = get sq (fst (lines ! i))"
    with jf before have "i = j" by (metis nat_neq_iff)
    with res j(2) have "calculateWinner sq = get sq a" by (simp add: ol)
    with lines_in_board[OF mem] len won show ?thesis by (simp add: get_def)
  qed
qed

theorem calculateWinner_earliest_witness:
  "calculateWinner [Some MarkO, Some MarkX, None,
                    Some MarkO, Some MarkX, None,
                    Some MarkO, Some MarkX, None] = Some MarkO"
proof -
  let ?sq = "[Some MarkO, Some MarkX, None,
              Some MarkO, Some MarkX, None,
              Some MarkO, Some MarkX, None]"
  let ?order = "[(0, 1, 2), (3, 4, 5), (6, 7, 8), (0, 3, 6), (1, 4, 7), (2, 5, 8),
                 (0, 4, 8), (2, 4, 6)] :: (nat \<times> nat \<times> nat) list"
  have rows: "case ?order ! k of (a', b', c') \<Rightarrow>
                \<not> (\<exists>m'. ?sq ! a' = Some m' \<and> ?sq ! b' = Some m' \<and> ?sq ! c' = Some m')"
    if "k < 3" for k
  proof -
    from that consider "k = 0" | "k = 1" | "k = 2" by linarith
    then show ?thesis by cases simp_all
  qed
  show ?thesis
    using calculateWinner_earliest[of ?sq ?order 3 0 3 6 MarkO] rows by simp
qed

text \<open>Two boards evaluated: the top row of X, and the empty board.\<close>

lemma winner_empty: "calculateWinner (replicate 9 None) = None"
  by (simp add: calculateWinner_def winner_from.simps lines_def get_def truthy_def)

lemma winner_top_row:
  "calculateWinner [Some MarkX, Some MarkX, Some MarkX,
                    Some MarkO, Some MarkO, None,
                    None, None, None] = Some MarkX"
  by (simp add: calculateWinner_def winner_from.simps lines_def get_def truthy_def)

section \<open>The status line\<close>

text \<open>
  Claim C6. The status text is \<open>Winner: \<close> followed by the winning mark when
  \<open>calculateWinner\<close> reports one on the board, and otherwise \<open>Next player: \<close> followed by
  the mark whose turn it is.
\<close>

theorem status_text:
  "(calculateWinner sq = Some w \<longrightarrow> status xn sq = ''Winner: '' @ mark_str w) \<and>
   (calculateWinner sq = None \<longrightarrow>
      status xn sq = ''Next player: '' @ mark_str (if xn then MarkX else MarkO))"
  by (simp add: status_def truthy_def)

theorem status_text_witness:
  "status False [Some MarkX, Some MarkX, Some MarkX,
                Some MarkO, Some MarkO, None,
                None, None, None] = ''Winner: X'' \<and>
   status False (replicate 9 None) = ''Next player: O'' \<and>
   status True (replicate 9 None) = ''Next player: X''"
  using status_text[of "[Some MarkX, Some MarkX, Some MarkX,
                Some MarkO, Some MarkO, None,
                None, None, None]" MarkX False]
    status_text[of "replicate 9 None" MarkX False]
    status_text[of "replicate 9 None" MarkX True]
    winner_top_row winner_empty
  by simp

section \<open>A click on a square\<close>

lemma truthy_iff: "truthy v \<longleftrightarrow> v \<noteq> None"
  by (simp add: truthy_def split: option.splits)

lemma handleClick_reject:
  "truthy (calculateWinner (h ! squares)) \<or> truthy (get (h ! squares) i) \<Longrightarrow>
   handleClick xn squares onPlay i (h, s) = (h, s)"
  by (simp add: handleClick_def)

lemma handleClick_accept:
  "\<not> truthy (calculateWinner (h ! squares)) \<Longrightarrow> \<not> truthy (get (h ! squares) i) \<Longrightarrow>
   handleClick xn squares onPlay i (h, s) =
     onPlay (length h)
       (h @ [set_at (h ! squares) i (Some (if xn then MarkX else MarkO))], s)"
  by (simp add: handleClick_def alloc_def store_def)

text \<open>
  Claim C2. On a board of nine slots and a square \<open>i < 9\<close>: when the board already has a
  winner or slot \<open>i\<close> is occupied, \<open>handleClick\<close> returns the state it was given, whatever
  the callback is, and a callback that records its calls records none; otherwise it
  calls the callback once, with a board equal to the current one except that slot \<open>i\<close>
  holds the mark of the player whose turn it is.
\<close>

theorem handleClick_move:
  assumes len: "length (h ! squares) = 9" and i: "i < 9"
  shows "(calculateWinner (h ! squares) \<noteq> None \<or> (h ! squares) ! i \<noteq> None \<longrightarrow>
            handleClick xn squares onPlay i (h, s) = (h, s) \<and>
            handleClick xn squares (\<lambda>r (h', calls). (h', calls @ [h' ! r])) i (h, []) = (h, [])) \<and>
         (calculateWinner (h ! squares) = None \<and> (h ! squares) ! i = None \<longrightarrow>
            (\<exists>r h'.
               handleClick xn squares onPlay i (h, s) = onPlay r (h', s) \<and>
               h' ! r = (h ! squares)[i := Some (if xn then MarkX else MarkO)] \<and>
               handleClick xn squares (\<lambda>r (h', calls). (h', calls @ [h' ! r])) i (h, []) =
                 (h', [(h ! squares)[i := Some (if xn then MarkX else MarkO)]])))"
proof (intro conjI impI)
  assume "calculateWinner (h ! squares) \<noteq> None \<or> (h ! squares) ! i \<noteq> None"
  with len i have rej: "truthy (calculateWinner (h ! squares)) \<or> truthy (get (h ! squares) i)"
    by (simp add: truthy_iff get_def)
  show "handleClick xn squares onPlay i (h, s) = (h, s)"
    by (rule handleClick_reject[OF rej])
  show "handleClick xn squares (\<lambda>r (h', calls). (h', calls @ [h' ! r])) i (h, []) = (h, [])"
    by (rule handleClick_reject[OF rej])
next
  assume "calculateWinner (h ! squares) = None \<and> (h ! squares) ! i = None"
  with len i have nw: "\<not> truthy (calculateWinner (h ! squares))"
    and ne: "\<not> truthy (get (h ! squares) i)"
    by (simp_all add: truthy_iff get_def)
  let ?m = "Some (if xn then MarkX else MarkO)"
  let ?h' = "h @ [set_at (h ! squares) i ?m]"
  from len i have upd: "set_at (h ! squares) i ?m = (h ! squares)[i := ?m]"
    by (simp add: set_at_def)
  have "handleClick xn squares onPlay i (h, s) = onPlay (length h) (?h', s)"
    by (rule handleClick_accept[OF nw ne])
  moreover have "?h' ! length h = (h ! squares)[i := ?m]"
    using upd by simp
  moreover have "handleClick xn squares (\<lambda>r (h', calls). (h', calls @ [h' ! r])) i (h, []) =
      (?h', [(h ! squares)[i := ?m]])"
    using upd by (simp add: handleClick_accept[OF nw ne])
  ultimately show "\<exists>r h'.
      handleClick xn squares onPlay i (h, s) = onPlay r (h', s) \<and>
      h' ! r = (h ! squares)[i := ?m] \<and>
      handleClick xn squares (\<lambda>r (h', calls). (h', calls @ [h' ! r])) i (h, []) =
        (h', [(h ! squares)[i := ?m]])"
    by blast
qed

theorem handleClick_move_witness:
  "length ([replicate 9 None] ! 0) = 9 \<and> (4::nat) < 9 \<and>
   snd (handleClick True 0 (\<lambda>r (h', calls). (h', calls @ [h' ! r])) 4 ([replicate 9 None], [])) =
     [[None, None, None, None, Some MarkX, None, None, None, None]] \<and>
   handleClick False 0 (\<lambda>r (h', calls). (h', calls @ [h' ! r])) 4
       ([[None, None, None, None, Some MarkX, None, None, None, None]], []) =
     ([[None, None, None, None, Some MarkX, None, None, None, None]], [])"
proof -
  have e: "replicate 9 None = [None, None, None, None, None, None, None, None, None :: square]"
    by (simp add: numeral_eq_Suc)
  from handleClick_move[of "[replicate 9 None]" 0 4 True "\<lambda>r w. w" "()"] winner_empty
  have "snd (handleClick True 0 (\<lambda>r (h', calls). (h', calls @ [h' ! r])) 4 ([replicate 9 None], [])) =
     [[None, None, None, None, Some MarkX, None, None, None, None]]"
    by (auto simp: e)
  moreover
  from handleClick_move[of "[[None, None, None, None, Some MarkX, None, None, None, None]]" 0 4
      False "\<lambda>r w. w" "()"]
  have "handleClick False 0 (\<lambda>r (h', calls). (h', calls @ [h' ! r])) 4
       ([[None, None, None, None, Some MarkX, None, None, None, None]], []) =
     ([[None, None, None, None, Some MarkX, None, None, None, None]], [])"
    by simp
  ultimately show ?thesis by simp
qed

section \<open>Jumping in the history\<close>

text \<open>
  Claim C7. For a position \<open>k\<close> of the history, \<open>jumpTo k\<close> sets the current move to \<open>k\<close>
  and changes neither the history nor any board in it; the board shown is then the
  \<open>k\<close>-th of the history.
\<close>

theorem jumpTo_in_range:
  assumes "0 \<le> k" and "k < int (length (history g))"
  shows "fst (jumpTo k (h, g)) = h \<and>
         history (snd (jumpTo k (h, g))) = history g \<and>
         map ((!) (fst (jumpTo k (h, g)))) (history (snd (jumpTo k (h, g)))) =
           map ((!) h) (history g) \<and>
         currentMove (snd (jumpTo k (h, g))) = k \<and>
         currentSquares (snd (jumpTo k (h, g))) = Some (history g ! nat k)"
  using assms by (simp add: jumpTo_def currentSquares_def index_def)

theorem jumpTo_in_range_witness:
  "(0::int) \<le> 1 \<and> (1::int) < int (length [0, 1, 2 :: nat]) \<and>
   jumpTo 1
     ([replicate 9 None, (replicate 9 None)[0 := Some MarkX],
       (replicate 9 None)[0 := Some MarkX, 4 := Some MarkO]],
      \<lparr>history = [0, 1, 2], currentMove = 2\<rparr>) =
     ([replicate 9 None, (replicate 9 None)[0 := Some MarkX],
       (replicate 9 None)[0 := Some MarkX, 4 := Some MarkO]],
      \<lparr>history = [0, 1, 2], currentMove = 1\<rparr>) \<and>
   currentSquares \<lparr>history = [0, 1, 2], currentMove = 1\<rparr> = Some 1"
  using jumpTo_in_range[of 1 "\<lparr>history = [0, 1, 2], currentMove = 2\<rparr>"
      "[replicate 9 None, (replicate 9 None)[0 := Some MarkX],
        (replicate 9 None)[0 := Some MarkX, 4 := Some MarkO]]"]
  by (simp add: jumpTo_def)

text \<open>
  Claim C10. \<open>jumpTo\<close> checks nothing: for every integer \<open>k\<close> it sets the current move to
  \<open>k\<close> and leaves the history alone, and when \<open>k\<close> is negative or not below the length
  of the history, the board shown, \<open>history[currentMove]\<close>, is undefined.
\<close>

theorem jumpTo_unchecked:
  "fst (jumpTo k (h, g)) = h \<and>
   history (snd (jumpTo k (h, g))) = history g \<and>
   currentMove (snd (jumpTo k (h, g))) = k \<and>
   (k < 0 \<or> int (length (history g)) \<le> k \<longrightarrow>
      currentSquares (snd (jumpTo k (h, g))) = None)"
  by (auto simp: jumpTo_def currentSquares_def index_def)

theorem jumpTo_unchecked_witness:
  "currentMove (snd (jumpTo (- 1) initial)) = - 1 \<and>
   currentSquares (snd (jumpTo (- 1) initial)) = None \<and>
   currentMove (snd (jumpTo 7 initial)) = 7 \<and>
   currentSquares (snd (jumpTo 7 initial)) = None"
  using jumpTo_unchecked[of "- 1" "fst initial" "snd initial"]
    jumpTo_unchecked[of 7 "fst initial" "snd initial"]
  by (simp add: initial_def alloc_def)

section \<open>Recording a move\<close>

lemma slice_prefix:
  "0 \<le> n \<Longrightarrow> n \<le> int (length xs) \<Longrightarrow> slice xs 0 n = take (nat n) xs"
  by (simp add: slice_def Let_def min_def)

text \<open>
  Claim C3. When the current move is a position of the history, \<open>handlePlay s\<close> makes the
  history the entries up to and including the current move followed by \<open>s\<close>, and makes
  the current move its last position. Every position of the new history then shows an
  entry of that prefix or \<open>s\<close>, and every position beyond it shows nothing: the entries
  that came after the current move are gone.
\<close>

theorem handlePlay_truncates:
  assumes "0 \<le> currentMove g" and "currentMove g < int (length (history g))"
  shows "\<exists>g'. handlePlay s (h, g) = (h, g') \<and>
           history g' = take (nat (currentMove g) + 1) (history g) @ [s] \<and>
           currentMove g' = int (length (history g')) - 1 \<and>
           currentMove g' = currentMove g + 1 \<and>
           (\<forall>k. 0 \<le> k \<and> k < int (length (history g')) \<longrightarrow>
                k \<le> currentMove g + 1 \<and>
                currentSquares (snd (jumpTo k (h, g'))) =
                  Some (if k \<le> currentMove g then history g ! nat k else s)) \<and>
           (\<forall>k. currentMove g + 1 < k \<longrightarrow> currentSquares (snd (jumpTo k (h, g'))) = None)"
proof -
  define n where "n = nat (currentMove g)"
  from assms have cm: "currentMove g = int n" and nl: "n < length (history g)"
    by (simp_all add: n_def)
  define g' where "g' = \<lparr>history = take (n + 1) (history g) @ [s], currentMove = int n + 1\<rparr>"
  have sl: "slice (history g) 0 (currentMove g + 1) = take (n + 1) (history g)"
    using nl by (simp add: slice_prefix cm nat_add_distrib)
  have len: "length (take (n + 1) (history g)) = n + 1"
    using nl by simp
  have hp: "handlePlay s (h, g) = (h, g')"
    using nl by (simp add: handlePlay_def sl g'_def Let_def min_def)
  have reach: "k \<le> currentMove g + 1 \<and>
      currentSquares (snd (jumpTo k (h, g'))) =
        Some (if k \<le> currentMove g then history g ! nat k else s)"
    if "0 \<le> k" "k < int (length (history g'))" for k
  proof -
    from that len have k: "nat k \<le> n + 1" by (simp add: g'_def)
    show ?thesis
    proof (cases "nat k = n + 1")
      case True
      with that len show ?thesis
        by (auto simp: jumpTo_def currentSquares_def index_def g'_def cm nth_append)
    next
      case False
      with k have "nat k < n + 1" by simp
      with that len show ?thesis
        by (auto simp: jumpTo_def currentSquares_def index_def g'_def cm nth_append)
    qed
  qed
  have gone: "currentSquares (snd (jumpTo k (h, g'))) = None" if "currentMove g + 1 < k" for k
    using that len by (simp add: jumpTo_def currentSquares_def index_def g'_def cm)
  have h1: "history g' = take (nat (currentMove g) + 1) (history g) @ [s]"
    by (simp add: g'_def n_def)
  have h2: "currentMove g' = int (length (history g')) - 1"
    using len by (simp add: g'_def)
  have h3: "currentMove g' = currentMove g + 1"
    by (simp add: g'_def cm)
  from hp h1 h2 h3 reach gone show ?thesis
    by blast
qed

theorem handlePlay_truncates_witness:
  "(0::int) \<le> currentMove \<lparr>history = [0, 1, 2, 3], currentMove = 1\<rparr> \<and>
   currentMove \<lparr>history = [0, 1, 2, 3], currentMove = 1\<rparr>
     < int (length (history \<lparr>history = [0, 1, 2, 3], currentMove = 1\<rparr>)) \<and>
   handlePlay 4 ([], \<lparr>history = [0, 1, 2, 3], currentMove = 1\<rparr>) =
     ([], \<lparr>history = [0, 1, 4], currentMove = 2\<rparr>) \<and>
   currentSquares (snd (jumpTo 3 ([], \<lparr>history = [0, 1, 4], currentMove = 2\<rparr>))) = None"
proof -
  let ?g = "\<lparr>history = [0, 1, 2, 3], currentMove = 1\<rparr>"
  have range: "0 \<le> currentMove ?g" "currentMove ?g < int (length (history ?g))"
    by simp_all
  from handlePlay_truncates[OF range, of 4 "[]"]
  obtain g' where hp: "handlePlay 4 ([], ?g) = ([], g')"
    and hist: "history g' = take (nat (currentMove ?g) + 1) (history ?g) @ [4]"
    and cm: "currentMove g' = currentMove ?g + 1"
    and gone: "\<forall>k. currentMove ?g + 1 < k \<longrightarrow>
                 currentSquares (snd (jumpTo k ([], g'))) = None"
    by blast
  from hist cm have g': "g' = \<lparr>history = [0, 1, 4], currentMove = 2\<rparr>"
    by (cases g') simp
  from gone have "currentSquares (snd (jumpTo 3 ([], g'))) = None" by simp
  with range hp g' show ?thesis by simp
qed

section \<open>The session invariant\<close>

lemma session_ok_initial: "session_ok initial"
  by (simp add: session_ok_def initial_def alloc_def)

lemma session_ok_jumpTo:
  "session_ok w \<Longrightarrow> move < length (history (snd w)) \<Longrightarrow> session_ok (jumpTo (int move) w)"
  by (cases w) (simp add: session_ok_def jumpTo_def)

text \<open>What a click does to a well-formed session, in both cases.\<close>

lemma clickSquare_cases:
  assumes ok: "session_ok (h, g)"
  obtains (rejected) "clickSquare i (h, g) = Some (h, g)"
  | (accepted) n where "currentMove g = int n" "n < length (history g)"
      "get (h ! (history g ! n)) i = None"
      "clickSquare i (h, g) =
         Some (h @ [set_at (h ! (history g ! n)) i (Some (if xIsNext g then MarkX else MarkO))],
               \<lparr>history = take (n + 1) (history g) @ [length h], currentMove = int n + 1\<rparr>)"
proof -
  define n where "n = nat (currentMove g)"
  from ok have cm: "currentMove g = int n" and nl: "n < length (history g)"
    by (auto simp: session_ok_def n_def)
  let ?sq = "history g ! n"
  have cur: "currentSquares g = Some ?sq"
    using nl by (simp add: currentSquares_def index_def cm)
  show thesis
  proof (cases "truthy (calculateWinner (h ! ?sq)) \<or> truthy (get (h ! ?sq) i)")
    case True
    then have "clickSquare i (h, g) = Some (h, g)"
      by (simp add: clickSquare_def cur handleClick_reject)
    then show thesis by (rule rejected)
  next
    case False
    then have nw: "\<not> truthy (calculateWinner (h ! ?sq))" and ne: "\<not> truthy (get (h ! ?sq) i)"
      by simp_all
    have sl: "slice (history g) 0 (currentMove g + 1) = take (n + 1) (history g)"
      using nl by (simp add: slice_prefix cm nat_add_distrib)
    have "clickSquare i (h, g) =
         Some (h @ [set_at (h ! ?sq) i (Some (if xIsNext g then MarkX else MarkO))],
               \<lparr>history = take (n + 1) (history g) @ [length h], currentMove = int n + 1\<rparr>)"
      using nl
      by (simp add: clickSquare_def cur handleClick_accept[OF nw ne] handlePlay_def sl Let_def
          min_def)
    moreover from ne have "get (h ! ?sq) i = None" by (simp add: truthy_iff)
    ultimately show thesis using cm nl by (intro accepted[of n])
  qed
qed

lemma one_move_set_at:
  assumes "length sq = 9" and "i < 9" and "get sq i = None"
  shows "one_move sq (set_at sq i (Some m))"
  using assms unfolding one_move_def set_at_def get_def
  by (intro exI[of _ i]) simp

lemma session_ok_clickSquare:
  assumes ok: "session_ok w" and i: "i < 9" and click: "clickSquare i w = Some w'"
  shows "session_ok w'"
proof -
  obtain h g where w: "w = (h, g)" by (cases w)
  from ok w have okhg: "session_ok (h, g)" by simp
  from okhg show ?thesis
  proof (cases rule: clickSquare_cases[where i = i])
    case rejected
    with click w ok show ?thesis by simp
  next
    case (accepted n)
    let ?m = "Some (if xIsNext g then MarkX else MarkO)"
    let ?old = "h ! (history g ! n)"
    let ?new = "set_at ?old i ?m"
    let ?h' = "h @ [?new]"
    let ?hist' = "take (n + 1) (history g) @ [length h]"
    from accepted click w
    have w': "w' = (?h', \<lparr>history = ?hist', currentMove = int n + 1\<rparr>)" by simp
    from okhg have refs: "\<forall>r \<in> set (history g). r < length h \<and> length (h ! r) = 9"
      and first: "h ! (history g ! 0) = replicate 9 None"
      and steps: "\<forall>k. Suc k < length (history g) \<longrightarrow>
             one_move (h ! (history g ! k)) (h ! (history g ! Suc k))"
      by (simp_all add: session_ok_def)
    from accepted(2) have len: "length (take (n + 1) (history g)) = n + 1" by simp
    from accepted(2) refs have cur: "history g ! n < length h" "length ?old = 9"
      by simp_all
    from cur i have newlen: "length ?new = 9" by (simp add: set_at_def)
    have old_ref: "?hist' ! k < length h \<and> ?h' ! (?hist' ! k) = h ! (history g ! k)"
      if "k \<le> n" for k
    proof -
      from that accepted(2) have "k < length (history g)" by simp
      with refs have "history g ! k < length h" by simp
      with that len show ?thesis by (simp add: nth_append)
    qed
    have new_ref: "?hist' ! (n + 1) = length h" "?h' ! length h = ?new"
      using len by (simp_all add: nth_append)
    have r': "\<forall>r \<in> set ?hist'. r < length ?h' \<and> length (?h' ! r) = 9"
    proof
      fix r assume "r \<in> set ?hist'"
      then consider "r \<in> set (take (n + 1) (history g))" | "r = length h" by auto
      then show "r < length ?h' \<and> length (?h' ! r) = 9"
      proof cases
        case 1
        then have "r \<in> set (history g)" by (rule in_set_takeD)
        with refs have "r < length h" "length (h ! r) = 9" by auto
        then show ?thesis by (simp add: nth_append)
      next
        case 2
        with newlen show ?thesis by simp
      qed
    qed
    have first': "?h' ! (?hist' ! 0) = replicate 9 None"
      using old_ref[of 0] first by simp
    have steps': "one_move (?h' ! (?hist' ! k)) (?h' ! (?hist' ! Suc k))"
      if "Suc k < length ?hist'" for k
    proof (cases "k = n")
      case True
      have "one_move ?old ?new"
        by (rule one_move_set_at[OF cur(2) i accepted(3)])
      with True old_ref[of n] new_ref show ?thesis by simp
    next
      case False
      with that len have kn: "Suc k \<le> n" by simp
      then have "k \<le> n" by simp
      from kn accepted(2) have "Suc k < length (history g)" by simp
      with steps have "one_move (h ! (history g ! k)) (h ! (history g ! Suc k))" by simp
      with old_ref[OF kn] old_ref[OF \<open>k \<le> n\<close>] show ?thesis by simp
    qed
    from len r' first' steps' show ?thesis
      unfolding w' session_ok_def by simp
  qed
qed

lemma session_ok_fire: "session_ok w \<Longrightarrow> fire e w = Some w' \<Longrightarrow> session_ok w'"
  by (cases e) (auto simp: session_ok_clickSquare session_ok_jumpTo split: if_splits)

lemma session_ok_run: "session_ok w \<Longrightarrow> run es w = Some w' \<Longrightarrow> session_ok w'"
proof (induction es arbitrary: w)
  case Nil
  then show ?case by simp
next
  case (Cons e es)
  from Cons.prems(2) obtain u where u: "fire e w = Some u" "run es u = Some w'"
    by (auto split: option.splits)
  from Cons.prems(1) u(1) have "session_ok u" by (rule session_ok_fire)
  then show ?case using u(2) by (rule Cons.IH)
qed

section \<open>Boards are never written after the move that made them\<close>

lemma run_append:
  "run (es @ fs) w = (case run es w of None \<Rightarrow> None | Some u \<Rightarrow> run fs u)"
  by (induction es arbitrary: w) (auto split: option.splits)

lemma handlePlay_heap: "fst (handlePlay r w) = fst w"
  by (cases w) (simp add: handlePlay_def Let_def)

lemma clickSquare_frame:
  assumes "clickSquare i w = Some w'"
  shows "length (fst w) \<le> length (fst w') \<and> (\<forall>r < length (fst w). fst w' ! r = fst w ! r)"
proof -
  obtain h g where w: "w = (h, g)" by (cases w)
  from assms w obtain sq where
    w': "w' = handleClick (xIsNext g) sq handlePlay i (h, g)"
    by (auto simp: clickSquare_def split: option.splits)
  show ?thesis
  proof (cases "truthy (calculateWinner (h ! sq)) \<or> truthy (get (h ! sq) i)")
    case True
    then show ?thesis by (simp add: w w' handleClick_reject)
  next
    case False
    then have "fst w' = h @ [set_at (h ! sq) i (Some (if xIsNext g then MarkX else MarkO))]"
      by (simp add: w' handleClick_accept handlePlay_heap)
    then show ?thesis by (simp add: w nth_append)
  qed
qed

lemma fire_frame:
  assumes "fire e w = Some w'"
  shows "length (fst w) \<le> length (fst w') \<and> (\<forall>r < length (fst w). fst w' ! r = fst w ! r)"
proof (cases e)
  case (SquareClick i)
  with assms have "clickSquare i w = Some w'" by (simp split: if_splits)
  then show ?thesis by (rule clickSquare_frame)
next
  case (MoveClick move)
  with assms have "w' = jumpTo (int move) w" by (simp split: if_splits)
  then show ?thesis by (cases w) (simp add: jumpTo_def)
qed

lemma run_frame:
  "run es w = Some w' \<Longrightarrow>
   length (fst w) \<le> length (fst w') \<and> (\<forall>r < length (fst w). fst w' ! r = fst w ! r)"
proof (induction es arbitrary: w)
  case Nil
  then show ?case by simp
next
  case (Cons e es)
  from Cons.prems obtain u where u: "fire e w = Some u" "run es u = Some w'"
    by (auto split: option.splits)
  from fire_frame[OF u(1)] Cons.IH[OF u(2)] show ?case by auto
qed

text \<open>
  Claim C8. A click never writes to the board it was given. For an empty slot \<open>i\<close> on a
  board without a winner, \<open>handleClick\<close> hands the callback a reference that did not
  exist before, to a copy of the board with slot \<open>i\<close> set, and in the store it hands
  over, the given board and every other board that existed hold the values they held
  before. With the Game's own callback the given board is the same after the click, and
  no sequence of clicks changes a board that exists.
\<close>

theorem handleClick_copies:
  assumes ref: "squares < length h"
  shows "(calculateWinner (h ! squares) = None \<and> get (h ! squares) i = None \<longrightarrow>
            (\<exists>r h'. handleClick xn squares onPlay i (h, s) = onPlay r (h', s) \<and>
               r \<noteq> squares \<and> length h \<le> r \<and>
               h' ! r = set_at (h ! squares) i (Some (if xn then MarkX else MarkO)) \<and>
               h' ! squares = h ! squares \<and>
               (\<forall>r0 < length h. h' ! r0 = h ! r0))) \<and>
         fst (handleClick xn squares handlePlay i (h, g)) ! squares = h ! squares \<and>
         (\<forall>evs w'. run evs (h, g) = Some w' \<longrightarrow> (\<forall>r0 < length h. fst w' ! r0 = h ! r0))"
proof (intro conjI impI allI)
  let ?new = "set_at (h ! squares) i (Some (if xn then MarkX else MarkO))"
  assume "calculateWinner (h ! squares) = None \<and> get (h ! squares) i = None"
  then have nw: "\<not> truthy (calculateWinner (h ! squares))"
    and ne: "\<not> truthy (get (h ! squares) i)"
    by (simp_all add: truthy_iff)
  have "handleClick xn squares onPlay i (h, s) = onPlay (length h) (h @ [?new], s)"
    by (rule handleClick_accept[OF nw ne])
  moreover have "length h \<noteq> squares" using ref by simp
  moreover have "(h @ [?new]) ! length h = ?new" by simp
  moreover have "(h @ [?new]) ! squares = h ! squares" using ref by (simp add: nth_append)
  moreover have "\<forall>r0 < length h. (h @ [?new]) ! r0 = h ! r0" by (simp add: nth_append)
  ultimately show "\<exists>r h'. handleClick xn squares onPlay i (h, s) = onPlay r (h', s) \<and>
      r \<noteq> squares \<and> length h \<le> r \<and> h' ! r = ?new \<and>
      h' ! squares = h ! squares \<and> (\<forall>r0 < length h. h' ! r0 = h ! r0)"
    by blast
next
  show "fst (handleClick xn squares handlePlay i (h, g)) ! squares = h ! squares"
  proof (cases "truthy (calculateWinner (h ! squares)) \<or> truthy (get (h ! squares) i)")
    case True
    then show ?thesis by (simp add: handleClick_reject)
  next
    case False
    then show ?thesis using ref
      by (simp add: handleClick_accept handlePlay_heap nth_append)
  qed
next
  fix evs w' r0
  assume "run evs (h, g) = Some w'" and "r0 < length h"
  with run_frame[of evs "(h, g)" w'] show "fst w' ! r0 = h ! r0" by simp
qed

theorem handleClick_copies_witness:
  "(0::nat) < length [replicate 9 (None :: square)] \<and>
   fst (handleClick True 0 handlePlay 4
          ([replicate 9 None], \<lparr>history = [0], currentMove = 0\<rparr>)) ! 0 = replicate 9 None \<and>
   fst (handleClick True 0 handlePlay 4
          ([replicate 9 None], \<lparr>history = [0], currentMove = 0\<rparr>)) ! 1 =
     [None, None, None, None, Some MarkX, None, None, None, None]"
proof -
  let ?h = "[replicate 9 (None :: square)]"
  let ?g = "\<lparr>history = [0], currentMove = 0\<rparr>"
  have ref: "(0::nat) < length ?h" by simp
  have empty: "calculateWinner (?h ! 0) = None \<and> get (?h ! 0) 4 = None"
    using winner_empty by (simp add: get_def)
  from handleClick_copies[where squares = 0 and h = ?h and xn = True and onPlay = handlePlay
      and i = 4 and s = ?g and g = ?g] ref empty
  obtain r h' where click: "handleClick True 0 handlePlay 4 (?h, ?g) = handlePlay r (h', ?g)"
    and r: "r \<noteq> 0" "length ?h \<le> r"
    and new: "h' ! r = set_at (?h ! 0) 4 (Some MarkX)"
    and old: "h' ! 0 = ?h ! 0"
    by auto
  have same: "fst (handleClick True 0 handlePlay 4 (?h, ?g)) ! 0 = replicate 9 None"
    using click old by (simp add: handlePlay_heap)
  have "fst (handleClick True 0 handlePlay 4 (?h, ?g)) ! 1 =
      [None, None, None, None, Some MarkX, None, None, None, None]"
    using empty
    by (simp add: handleClick_accept truthy_iff handlePlay_heap set_at_def numeral_eq_Suc)
  with ref same show ?thesis by simp
qed

section \<open>The history of a game\<close>

text \<open>
  Claim C4. In every state reached from the first render by clicks on squares and on
  the buttons of the move list, the first board of the history is empty, and every
  later board differs from the one before it in exactly one slot, which was empty and
  now holds a mark.
\<close>

theorem history_invariant:
  assumes "run evs initial = Some (h, g)"
  shows "h ! (history g ! 0) = replicate 9 None \<and>
         (\<forall>k. 1 \<le> k \<and> k < length (history g) \<longrightarrow>
            length (h ! (history g ! (k - 1))) = 9 \<and> length (h ! (history g ! k)) = 9 \<and>
            (\<exists>i < 9.
               h ! (history g ! (k - 1)) ! i = None \<and>
               (\<exists>m. h ! (history g ! k) ! i = Some m) \<and>
               (\<forall>j < 9. j \<noteq> i \<longrightarrow> h ! (history g ! k) ! j = h ! (history g ! (k - 1)) ! j)))"
proof -
  from session_ok_initial assms have ok: "session_ok (h, g)" by (rule session_ok_run)
  then have refs: "\<forall>r \<in> set (history g). length (h ! r) = 9"
    and first: "h ! (history g ! 0) = replicate 9 None"
    and steps: "\<forall>k. Suc k < length (history g) \<longrightarrow>
             one_move (h ! (history g ! k)) (h ! (history g ! Suc k))"
    by (simp_all add: session_ok_def)
  have "length (h ! (history g ! (k - 1))) = 9 \<and> length (h ! (history g ! k)) = 9 \<and>
        (\<exists>i < 9.
           h ! (history g ! (k - 1)) ! i = None \<and>
           (\<exists>m. h ! (history g ! k) ! i = Some m) \<and>
           (\<forall>j < 9. j \<noteq> i \<longrightarrow> h ! (history g ! k) ! j = h ! (history g ! (k - 1)) ! j))"
    if k: "1 \<le> k" "k < length (history g)" for k
  proof -
    from k obtain k' where k': "k = Suc k'" by (cases k) auto
    let ?old = "h ! (history g ! k')" and ?new = "h ! (history g ! Suc k')"
    from k k' steps have "one_move ?old ?new" by simp
    then obtain i where i: "i < 9" "?old ! i = None" "?new ! i \<noteq> None"
      "\<forall>j < 9. j \<noteq> i \<longrightarrow> ?new ! j = ?old ! j"
      unfolding one_move_def by blast
    from i(3) obtain m where m: "?new ! i = Some m" by blast
    from k k' refs have "length ?old = 9" "length ?new = 9" by simp_all
    moreover from i m have "\<exists>i < 9. ?old ! i = None \<and> (\<exists>m. ?new ! i = Some m) \<and>
        (\<forall>j < 9. j \<noteq> i \<longrightarrow> ?new ! j = ?old ! j)"
      by blast
    ultimately show ?thesis unfolding k' by simp
  qed
  with first show ?thesis by blast
qed

lemma run_branch:
  "run [SquareClick 0, SquareClick 4, MoveClick 1, SquareClick 8] initial =
     Some ([[None, None, None, None, None, None, None, None, None],
            [Some MarkX, None, None, None, None, None, None, None, None],
            [Some MarkX, None, None, None, Some MarkO, None, None, None, None],
            [Some MarkX, None, None, None, None, None, None, None, Some MarkO]],
           \<lparr>history = [0, 1, 3], currentMove = 2\<rparr>)"
  by code_simp

theorem history_invariant_witness:
  "run [SquareClick 0, SquareClick 4, MoveClick 1, SquareClick 8] initial =
     Some ([[None, None, None, None, None, None, None, None, None],
            [Some MarkX, None, None, None, None, None, None, None, None],
            [Some MarkX, None, None, None, Some MarkO, None, None, None, None],
            [Some MarkX, None, None, None, None, None, None, None, Some MarkO]],
           \<lparr>history = [0, 1, 3], currentMove = 2\<rparr>) \<and>
   [[None, None, None, None, None, None, None, None, None],
    [Some MarkX, None, None, None, None, None, None, None, None],
    [Some MarkX, None, None, None, Some MarkO, None, None, None, None],
    [Some MarkX, None, None, None, None, None, None, None, Some MarkO]] !
     (history \<lparr>history = [0, 1, 3], currentMove = 2\<rparr> ! 0) = replicate 9 (None :: square)"
  using history_invariant[OF run_branch] run_branch by simp

section \<open>Whose turn it is\<close>

lemma js_rem_2: "js_rem k 2 = 0 \<longleftrightarrow> even k"
proof -
  have "js_rem k 2 = 0 \<longleftrightarrow> k = 0 \<or> \<bar>k\<bar> mod 2 = 0"
    by (simp add: js_rem_def sgn_eq_0_iff)
  also have "\<dots> \<longleftrightarrow> k = 0 \<or> even k"
    by (simp add: mod_eq_0_iff_dvd)
  also have "\<dots> \<longleftrightarrow> even k" by auto
  finally show ?thesis .
qed

lemma xIsNext_even: "xIsNext g \<longleftrightarrow> even (currentMove g)"
  by (simp add: xIsNext_def js_rem_2)

text \<open>
  Claim C5. In every reachable state the next player is X exactly when the current move
  is even; after a jump to a position \<open>move\<close> of the history the current move is
  \<open>move\<close> and the next player is X exactly when \<open>move\<close> is even; and after \<open>k\<close> clicks on
  squares from the start, each of which changed the state (a successful move), the
  current move is \<open>k\<close> and the next player is X exactly when \<open>k\<close> is even.
\<close>

theorem turn_parity:
  assumes "run evs initial = Some w"
  shows "((if xIsNext (snd w) then MarkX else MarkO) = MarkX \<longleftrightarrow> even (currentMove (snd w))) \<and>
         (\<forall>move < length (history (snd w)).
            currentMove (snd (jumpTo (int move) w)) = int move \<and>
            ((if xIsNext (snd (jumpTo (int move) w)) then MarkX else MarkO) = MarkX
               \<longleftrightarrow> even move)) \<and>
         ((\<forall>n < length evs. \<exists>i u. evs ! n = SquareClick i \<and>
              run (take n evs) initial = Some u \<and> fire (evs ! n) u \<noteq> Some u) \<longrightarrow>
            currentMove (snd w) = int (length evs) \<and>
            ((if xIsNext (snd w) then MarkX else MarkO) = MarkX \<longleftrightarrow> even (length evs)))"
proof -
  have parity: "(if xIsNext g then MarkX else MarkO) = MarkX \<longleftrightarrow> even (currentMove g)" for g
    by (simp add: xIsNext_even)
  have jump: "currentMove (snd (jumpTo k w)) = k" for k
    by (cases w) (simp add: jumpTo_def)
  have count: "currentMove (snd w) = int (length evs)"
    if "\<forall>n < length evs. \<exists>i u. evs ! n = SquareClick i \<and>
          run (take n evs) initial = Some u \<and> fire (evs ! n) u \<noteq> Some u"
    using assms that
  proof (induction evs arbitrary: w rule: rev_induct)
    case Nil
    then show ?case by (auto simp: initial_def alloc_def)
  next
    case (snoc e es)
    from snoc.prems(1) obtain u where u: "run es initial = Some u" "fire e u = Some w"
      by (auto simp: run_append split: option.splits)
    have "\<forall>n < length es. \<exists>i u. es ! n = SquareClick i \<and>
          run (take n es) initial = Some u \<and> fire (es ! n) u \<noteq> Some u"
    proof (intro allI impI)
      fix n assume n: "n < length es"
      with snoc.prems(2) have "\<exists>i u. (es @ [e]) ! n = SquareClick i \<and>
          run (take n (es @ [e])) initial = Some u \<and> fire ((es @ [e]) ! n) u \<noteq> Some u"
        by simp
      with n show "\<exists>i u. es ! n = SquareClick i \<and>
          run (take n es) initial = Some u \<and> fire (es ! n) u \<noteq> Some u"
        by (simp add: nth_append)
    qed
    with u(1) have cu: "currentMove (snd u) = int (length es)" by (rule snoc.IH)
    have "length es < length (es @ [e])" by simp
    with snoc.prems(2) obtain i u' where
      last: "(es @ [e]) ! length es = SquareClick i"
        "run (take (length es) (es @ [e])) initial = Some u'"
        "fire ((es @ [e]) ! length es) u' \<noteq> Some u'"
      by blast
    from last(1) have e: "e = SquareClick i" by simp
    from last(2) u(1) have "u' = u" by simp
    with last(3) have changed: "fire e u \<noteq> Some u" by simp
    from session_ok_initial u(1) have ok: "session_ok u" by (rule session_ok_run)
    obtain h g where hg: "u = (h, g)" by (cases u)
    from u(2) e have click: "clickSquare i u = Some w" by (simp split: if_splits)
    from ok hg have "session_ok (h, g)" by simp
    then have "currentMove (snd w) = currentMove g + 1"
    proof (cases rule: clickSquare_cases[where i = i])
      case rejected
      with click hg changed u(2) show ?thesis by simp
    next
      case (accepted n)
      with click hg show ?thesis by auto
    qed
    with cu hg show ?case by simp
  qed
  from parity jump count show ?thesis by simp
qed

lemma run_three_moves:
  "run [] initial = Some ([[None, None, None, None, None, None, None, None, None]],
           \<lparr>history = [0], currentMove = 0\<rparr>)"
  "run [SquareClick 0] initial =
     Some ([[None, None, None, None, None, None, None, None, None],
            [Some MarkX, None, None, None, None, None, None, None, None]],
           \<lparr>history = [0, 1], currentMove = 1\<rparr>)"
  "run [SquareClick 0, SquareClick 4] initial =
     Some ([[None, None, None, None, None, None, None, None, None],
            [Some MarkX, None, None, None, None, None, None, None, None],
            [Some MarkX, None, None, None, Some MarkO, None, None, None, None]],
           \<lparr>history = [0, 1, 2], currentMove = 2\<rparr>)"
  "run [SquareClick 0, SquareClick 4, SquareClick 1] initial =
     Some ([[None, None, None, None, None, None, None, None, None],
            [Some MarkX, None, None, None, None, None, None, None, None],
            [Some MarkX, None, None, None, Some MarkO, None, None, None, None],
            [Some MarkX, Some MarkX, None, None, Some MarkO, None, None, None, None]],
           \<lparr>history = [0, 1, 2, 3], currentMove = 3\<rparr>)"
  by code_simp+

lemma fire_three_moves:
  "fire (SquareClick 0) ([[None, None, None, None, None, None, None, None, None]],
           \<lparr>history = [0], currentMove = 0\<rparr>) \<noteq>
     Some ([[None, None, None, None, None, None, None, None, None]],
           \<lparr>history = [0], currentMove = 0\<rparr>)"
  "fire (SquareClick 4) ([[None, None, None, None, None, None, None, None, None],
            [Some MarkX, None, None, None, None, None, None, None, None]],
           \<lparr>history = [0, 1], currentMove = 1\<rparr>) \<noteq>
     Some ([[None, None, None, None, None, None, None, None, None],
            [Some MarkX, None, None, None, None, None, None, None, None]],
           \<lparr>history = [0, 1], currentMove = 1\<rparr>)"
  "fire (SquareClick 1) ([[None, None, None, None, None, None, None, None, None],
            [Some MarkX, None, None, None, None, None, None, None, None],
            [Some MarkX, None, None, None, Some MarkO, None, None, None, None]],
           \<lparr>history = [0, 1, 2], currentMove = 2\<rparr>) \<noteq>
     Some ([[None, None, None, None, None, None, None, None, None],
            [Some MarkX, None, None, None, None, None, None, None, None],
            [Some MarkX, None, None, None, Some MarkO, None, None, None, None]],
           \<lparr>history = [0, 1, 2], currentMove = 2\<rparr>)"
  by code_simp+

theorem turn_parity_witness:
  "run [SquareClick 0, SquareClick 4, SquareClick 1] initial =
     Some ([[None, None, None, None, None, None, None, None, None],
            [Some MarkX, None, None, None, None, None, None, None, None],
            [Some MarkX, None, None, None, Some MarkO, None, None, None, None],
            [Some MarkX, Some MarkX, None, None, Some MarkO, None, None, None, None]],
           \<lparr>history = [0, 1, 2, 3], currentMove = 3\<rparr>) \<and>
   currentMove \<lparr>history = [0, 1, 2, 3], currentMove = 3\<rparr> = 3 \<and>
   \<not> xIsNext \<lparr>history = [0, 1, 2, 3], currentMove = 3\<rparr>"
proof -
  let ?evs = "[SquareClick 0, SquareClick 4, SquareClick 1]"
  let ?g = "\<lparr>history = [0, 1, 2, 3], currentMove = 3\<rparr>"
  have moves: "\<forall>n < length ?evs. \<exists>i u. ?evs ! n = SquareClick i \<and>
      run (take n ?evs) initial = Some u \<and> fire (?evs ! n) u \<noteq> Some u"
  proof (intro allI impI)
    fix n assume "n < length ?evs"
    then consider "n = 0" | "n = 1" | "n = 2" by fastforce
    then show "\<exists>i u. ?evs ! n = SquareClick i \<and>
        run (take n ?evs) initial = Some u \<and> fire (?evs ! n) u \<noteq> Some u"
    proof cases
      case 1
      with run_three_moves(1) fire_three_moves(1) show ?thesis by simp
    next
      case 2
      with run_three_moves(2) fire_three_moves(2) show ?thesis by simp
    next
      case 3
      with run_three_moves(3) fire_three_moves(3) show ?thesis
        by (simp add: numeral_2_eq_2)
    qed
  qed
  let ?w = "([[None, None, None, None, None, None, None, None, None],
               [Some MarkX, None, None, None, None, None, None, None, None],
               [Some MarkX, None, None, None, Some MarkO, None, None, None, None],
               [Some MarkX, Some MarkX, None, None, Some MarkO, None, None, None, None]], ?g)"
  from turn_parity[OF run_three_moves(4)] moves
  have "currentMove (snd ?w) = int (length ?evs) \<and>
        ((if xIsNext (snd ?w) then MarkX else MarkO) = MarkX \<longleftrightarrow> even (length ?evs))"
    by blast
  then have "currentMove ?g = 3 \<and> \<not> xIsNext ?g"
    by (simp split: if_splits)
  with run_three_moves(4) show ?thesis by simp
qed

end
